theory Spec2Isabelle
  imports Main "HOL-Library.Word"
begin

section \<open>The ConfessionVault contract as a state machine\<close>

text \<open>
  The contract \<^verbatim>\<open>ConfessionVault\<close> (Solidity \<^verbatim>\<open>^0.8.24\<close>) is embedded as functions on
  an explicit record of its storage. Every external function takes the execution
  context (\<^verbatim>\<open>msg.sender\<close>, \<^verbatim>\<open>block.timestamp\<close>) and the storage, and returns either the
  reason of the revert (\<open>Inl\<close>) or the new storage and the return value (\<open>Inr\<close>).
  Unsigned integers are words of the declared width; arithmetic written with
  \<^verbatim>\<open>+\<close> and \<^verbatim>\<open>++\<close> is the checked arithmetic of Solidity 0.8, which reverts with
  \<^verbatim>\<open>Panic(0x11)\<close> on overflow.
\<close>

subsection \<open>Value types\<close>

type_synonym uint256 = "256 word"
type_synonym uint64 = "64 word"
type_synonym uint32 = "32 word"
type_synonym bytes32 = "256 word"
type_synonym address = "160 word"
type_synonym bytes = "8 word list"

text \<open>
  The reasons a call can revert with: a \<^verbatim>\<open>require\<close> string, the arithmetic panic of
  checked arithmetic, and the custom error of the inherited \<^verbatim>\<open>Ownable\<close>.
\<close>

datatype failure =
    Revert string
  | Panic_overflow
  | OwnableUnauthorizedAccount address

text \<open>
  The error kinds of the specification, and the kind each revert reason of the
  contract belongs to. A reason the specification has no kind for is \<open>None\<close>.
\<close>

datatype error_kind = Paused | RateLimited | AlreadyVoted | NotFound | Unauthorized | InvalidInput

fun kind_of :: "failure \<Rightarrow> error_kind option" where
  "kind_of (Revert m) =
     (if m = ''Contract is paused'' then Some Paused
      else if m = ''Message cannot be empty'' then Some InvalidInput
      else if m = ''Rate limit active - please wait before submitting again'' then Some RateLimited
      else if m = ''Confession does not exist'' then Some NotFound
      else if m = ''Already upvoted this confession'' then Some AlreadyVoted
      else if m = ''Cooldown too long (max 1 hour)'' then Some InvalidInput
      else if m = ''Only author can update IPFS CID'' then Some Unauthorized
      else None)"
| "kind_of Panic_overflow = None"
| "kind_of (OwnableUnauthorizedAccount a) = Some Unauthorized"

definition fails_with :: "failure + 'a \<Rightarrow> error_kind \<Rightarrow> bool" where
  "fails_with r k = (case r of Inl f \<Rightarrow> kind_of f = Some k | Inr _ \<Rightarrow> False)"

text \<open>Checked addition of Solidity 0.8 on unsigned integers of any width.\<close>

definition checked_add :: "'a::len word \<Rightarrow> 'a word \<Rightarrow> failure + 'a word" where
  "checked_add a b =
     (if unat a + unat b < 2 ^ LENGTH('a) then Inr (a + b) else Inl Panic_overflow)"

subsection \<open>The encryption capability\<close>

text \<open>
  The type \<^verbatim>\<open>euint32\<close> and the library functions \<^verbatim>\<open>FHE.asEuint32\<close> and \<^verbatim>\<open>FHE.add\<close>
  belong to the external FHEVM library. The contract is embedded over an arbitrary
  capability: \<open>'c\<close> is the type of ciphertext handles, \<open>nullHandle\<close> is the zero value an
  unwritten storage slot of that type holds. \<^verbatim>\<open>FHE.allow\<close> writes to the access control
  list of the external library, not to the storage of this contract, and has no
  counterpart here.
\<close>

record 'c fhe =
  asEuint32 :: "uint32 \<Rightarrow> 'c"
  fhe_add :: "'c \<Rightarrow> 'c \<Rightarrow> 'c"
  nullHandle :: "'c"

text \<open>
  A decryption function \<open>dec\<close> is a decryption oracle for a capability when encrypting a
  constant and decrypting it gives the constant back, and the homomorphic addition
  decrypts to the sum of 32-bit integers.
\<close>

definition decrypts :: "'c fhe \<Rightarrow> ('c \<Rightarrow> uint32) \<Rightarrow> bool" where
  "decrypts F dec =
     ((\<forall>v. dec (asEuint32 F v) = v) \<and> (\<forall>a b. dec (fhe_add F a b) = dec a + dec b))"

text \<open>The transparent capability: a ciphertext is its plaintext.\<close>

definition transparent :: "uint32 fhe" where
  "transparent = \<lparr>asEuint32 = (\<lambda>v. v), fhe_add = (\<lambda>a b. a + b), nullHandle = 0\<rparr>"

subsection \<open>Storage\<close>

record 'c Confession =
  message :: bytes
  encryptedVotes :: 'c
  voteCount :: uint32
  createdAt :: uint64
  author :: address
  ipfsCID :: bytes32
  exists :: bool

datatype event =
    ConfessionSubmitted uint256 address uint256
  | ConfessionUpvoted uint256 address uint256
  | RateLimitUpdated uint256
  | ContractPaused bool

text \<open>
  The storage of the contract. A Solidity mapping is a total function whose unwritten
  entries hold the zero value. \<open>owner\<close> is the storage variable of the inherited
  \<^verbatim>\<open>Ownable\<close>. \<open>events\<close> is the log the \<^verbatim>\<open>emit\<close> statements append to; it is not
  storage, and a call that reverts leaves it as it was.
\<close>

record 'c ledger =
  confessions :: "uint256 \<Rightarrow> 'c Confession"
  hasUpvoted :: "uint256 \<Rightarrow> address \<Rightarrow> bool"
  lastSubmissionTime :: "address \<Rightarrow> uint256"
  confessionCount :: uint256
  rateLimitCooldown :: uint256
  paused :: bool
  owner :: address
  events :: "event list"

record env =
  sender :: address
  timestamp :: uint256

definition zeroConfession :: "'c fhe \<Rightarrow> 'c Confession" where
  "zeroConfession F =
     \<lparr>message = [], encryptedVotes = nullHandle F, voteCount = 0, createdAt = 0,
      author = 0, ipfsCID = 0, exists = False\<rparr>"

text \<open>
  The storage after the constructor, deployed by \<open>deployer\<close>:
  \<^verbatim>\<open>rateLimitCooldown = 300\<close>, everything else zero, the deployer the owner.
\<close>

definition constructor :: "'c fhe \<Rightarrow> address \<Rightarrow> 'c ledger" where
  "constructor F deployer =
     \<lparr>confessions = (\<lambda>_. zeroConfession F),
      hasUpvoted = (\<lambda>_ _. False),
      lastSubmissionTime = (\<lambda>_. 0),
      confessionCount = 0,
      rateLimitCooldown = 300,
      paused = False,
      owner = deployer,
      events = []\<rparr>"

subsection \<open>Core functions\<close>

text \<open>
  The modifier \<^verbatim>\<open>notPaused\<close> runs first. The modifier \<^verbatim>\<open>nonReentrant\<close> of the
  inherited \<^verbatim>\<open>ReentrancyGuard\<close> passes on every call that is not made from inside
  another call of the contract; the functions are embedded as transactions, so it has
  no branch here.
\<close>

definition submitConfession ::
  "'c fhe \<Rightarrow> env \<Rightarrow> bytes \<Rightarrow> 'c ledger \<Rightarrow> failure + ('c ledger \<times> uint256)" where
  "submitConfession F e msg s =
     (if paused s then Inl (Revert ''Contract is paused'')
      else if \<not> (length msg > 0) then Inl (Revert ''Message cannot be empty'')
      else case checked_add (lastSubmissionTime s (sender e)) (rateLimitCooldown s) of
        Inl p \<Rightarrow> Inl p
      | Inr nextAllowed \<Rightarrow>
          if \<not> (timestamp e \<ge> nextAllowed)
          then Inl (Revert ''Rate limit active - please wait before submitting again'')
          else case checked_add (confessionCount s) 1 of
            Inl p \<Rightarrow> Inl p
          | Inr newId \<Rightarrow>
              Inr (s\<lparr>confessionCount := newId,
                     confessions := (confessions s)(newId :=
                       \<lparr>message = msg,
                        encryptedVotes = asEuint32 F 0,
                        voteCount = 0,
                        createdAt = ucast (timestamp e),
                        author = sender e,
                        ipfsCID = 0,
                        exists = True\<rparr>),
                     lastSubmissionTime := (lastSubmissionTime s)(sender e := timestamp e),
                     events := events s @ [ConfessionSubmitted newId (sender e) (timestamp e)]\<rparr>,
                   newId))"

definition upvote :: "'c fhe \<Rightarrow> env \<Rightarrow> uint256 \<Rightarrow> 'c ledger \<Rightarrow> failure + 'c ledger" where
  "upvote F e cid s =
     (if paused s then Inl (Revert ''Contract is paused'')
      else if \<not> exists (confessions s cid) then Inl (Revert ''Confession does not exist'')
      else if hasUpvoted s cid (sender e) then Inl (Revert ''Already upvoted this confession'')
      else
        let one = asEuint32 F 1;
            newVotes = fhe_add F (encryptedVotes (confessions s cid)) one
        in case checked_add (voteCount (confessions s cid)) 1 of
          Inl p \<Rightarrow> Inl p
        | Inr n \<Rightarrow>
            Inr (s\<lparr>confessions := (confessions s)(cid :=
                     (confessions s cid)\<lparr>encryptedVotes := newVotes, voteCount := n\<rparr>),
                   hasUpvoted := (hasUpvoted s)(cid := (hasUpvoted s cid)(sender e := True)),
                   events := events s @ [ConfessionUpvoted cid (sender e) (timestamp e)]\<rparr>))"

subsection \<open>View functions\<close>

definition getConfession :: "uint256 \<Rightarrow> 'c ledger \<Rightarrow> failure + 'c Confession" where
  "getConfession i s =
     (if \<not> exists (confessions s i) then Inl (Revert ''Confession does not exist'')
      else Inr (confessions s i))"

definition getConfessionData ::
  "uint256 \<Rightarrow> 'c ledger \<Rightarrow> failure + (bytes \<times> 'c \<times> uint32 \<times> uint64)" where
  "getConfessionData i s =
     (if \<not> exists (confessions s i) then Inl (Revert ''Confession does not exist'')
      else let confession = confessions s i
           in Inr (message confession, encryptedVotes confession,
                   voteCount confession, createdAt confession))"

definition hasUserUpvoted :: "uint256 \<Rightarrow> address \<Rightarrow> 'c ledger \<Rightarrow> bool" where
  "hasUserUpvoted cid voter s = hasUpvoted s cid voter"

definition getRemainingCooldown :: "env \<Rightarrow> address \<Rightarrow> 'c ledger \<Rightarrow> failure + uint256" where
  "getRemainingCooldown e user s =
     (case checked_add (lastSubmissionTime s user) (rateLimitCooldown s) of
        Inl p \<Rightarrow> Inl p
      | Inr nextAllowedTime \<Rightarrow>
          if timestamp e \<ge> nextAllowedTime then Inr 0
          else Inr (nextAllowedTime - timestamp e))"

subsection \<open>Admin functions\<close>

text \<open>
  Modelled from the spec: the modifier \<^verbatim>\<open>onlyOwner\<close> of the inherited \<^verbatim>\<open>Ownable\<close>,
  whose source is not part of the repository. The specification: the caller must equal
  \<open>owner\<close>, else the call fails with \<open>Unauthorized\<close>.
\<close>

definition onlyOwner :: "env \<Rightarrow> 'c ledger \<Rightarrow> (failure + 'a) \<Rightarrow> failure + 'a" where
  "onlyOwner e s body =
     (if owner s \<noteq> sender e then Inl (OwnableUnauthorizedAccount (sender e)) else body)"

definition updateRateLimit :: "env \<Rightarrow> uint256 \<Rightarrow> 'c ledger \<Rightarrow> failure + 'c ledger" where
  "updateRateLimit e newCooldown s =
     onlyOwner e s
       (if \<not> (newCooldown \<le> 3600) then Inl (Revert ''Cooldown too long (max 1 hour)'')
        else Inr (s\<lparr>rateLimitCooldown := newCooldown,
                    events := events s @ [RateLimitUpdated newCooldown]\<rparr>))"

definition togglePause :: "env \<Rightarrow> 'c ledger \<Rightarrow> failure + 'c ledger" where
  "togglePause e s =
     onlyOwner e s
       (Inr (s\<lparr>paused := \<not> paused s, events := events s @ [ContractPaused (\<not> paused s)]\<rparr>))"

definition emergencyPause :: "env \<Rightarrow> 'c ledger \<Rightarrow> failure + 'c ledger" where
  "emergencyPause e s =
     onlyOwner e s (Inr (s\<lparr>paused := True, events := events s @ [ContractPaused True]\<rparr>))"

definition unpause :: "env \<Rightarrow> 'c ledger \<Rightarrow> failure + 'c ledger" where
  "unpause e s =
     onlyOwner e s (Inr (s\<lparr>paused := False, events := events s @ [ContractPaused False]\<rparr>))"

definition updateIPFSCID :: "env \<Rightarrow> uint256 \<Rightarrow> bytes32 \<Rightarrow> 'c ledger \<Rightarrow> failure + 'c ledger" where
  "updateIPFSCID e cid newCID s =
     (if \<not> exists (confessions s cid) then Inl (Revert ''Confession does not exist'')
      else if \<not> (author (confessions s cid) = sender e)
      then Inl (Revert ''Only author can update IPFS CID'')
      else Inr (s\<lparr>confessions := (confessions s)(cid :=
                    (confessions s cid)\<lparr>ipfsCID := newCID\<rparr>)\<rparr>))"

subsection \<open>Transactions\<close>

text \<open>
  A transaction is a call of one state-changing external function in an execution
  context. A transaction that reverts leaves the storage and the log as they were.
  The functions \<^verbatim>\<open>transferOwnership\<close> and \<^verbatim>\<open>renounceOwnership\<close> that the contract
  inherits from \<^verbatim>\<open>Ownable\<close> are outside the repository and are not among the calls;
  they write \<open>owner\<close> only.
\<close>

datatype call =
    SubmitConfession bytes
  | Upvote uint256
  | UpdateRateLimit uint256
  | TogglePause
  | EmergencyPause
  | Unpause
  | UpdateIPFSCID uint256 bytes32

type_synonym tx = "env \<times> call"

fun dispatch :: "'c fhe \<Rightarrow> tx \<Rightarrow> 'c ledger \<Rightarrow> failure + 'c ledger" where
  "dispatch F (e, SubmitConfession msg) s = map_sum id fst (submitConfession F e msg s)"
| "dispatch F (e, Upvote cid) s = upvote F e cid s"
| "dispatch F (e, UpdateRateLimit n) s = updateRateLimit e n s"
| "dispatch F (e, TogglePause) s = togglePause e s"
| "dispatch F (e, EmergencyPause) s = emergencyPause e s"
| "dispatch F (e, Unpause) s = unpause e s"
| "dispatch F (e, UpdateIPFSCID cid c) s = updateIPFSCID e cid c s"

definition transact :: "'c fhe \<Rightarrow> tx \<Rightarrow> 'c ledger \<Rightarrow> 'c ledger" where
  "transact F t s = (case dispatch F t s of Inl _ \<Rightarrow> s | Inr s' \<Rightarrow> s')"

fun run :: "'c fhe \<Rightarrow> tx list \<Rightarrow> 'c ledger \<Rightarrow> 'c ledger" where
  "run F [] s = s"
| "run F (t # ts) s = run F ts (transact F t s)"

text \<open>The ids returned by the successful \<^verbatim>\<open>submitConfession\<close> calls of a run, in call order.\<close>

fun returned_ids :: "'c fhe \<Rightarrow> tx list \<Rightarrow> 'c ledger \<Rightarrow> uint256 list" where
  "returned_ids F [] s = []"
| "returned_ids F ((e, SubmitConfession msg) # ts) s =
     (case submitConfession F e msg s of
        Inl _ \<Rightarrow> returned_ids F ts s
      | Inr (s', i) \<Rightarrow> i # returned_ids F ts s')"
| "returned_ids F (t # ts) s = returned_ids F ts (transact F t s)"

text \<open>The voters of the successful \<^verbatim>\<open>upvote\<close> calls on confession \<open>cid\<close> in a run, in call order.\<close>

fun upvoters :: "'c fhe \<Rightarrow> uint256 \<Rightarrow> tx list \<Rightarrow> 'c ledger \<Rightarrow> address list" where
  "upvoters F cid [] s = []"
| "upvoters F cid ((e, Upvote j) # ts) s =
     (case upvote F e j s of
        Inl _ \<Rightarrow> upvoters F cid ts s
      | Inr s' \<Rightarrow> (if j = cid then [sender e] else []) @ upvoters F cid ts s')"
| "upvoters F cid (t # ts) s = upvoters F cid ts (transact F t s)"

text \<open>The callers of the successful \<^verbatim>\<open>submitConfession\<close> calls of a run, in call order.\<close>

fun submitters :: "'c fhe \<Rightarrow> tx list \<Rightarrow> 'c ledger \<Rightarrow> address list" where
  "submitters F [] s = []"
| "submitters F ((e, SubmitConfession msg) # ts) s =
     (case submitConfession F e msg s of
        Inl _ \<Rightarrow> submitters F ts s
      | Inr (s', i) \<Rightarrow> sender e # submitters F ts s')"
| "submitters F (t # ts) s = submitters F ts (transact F t s)"

subsection \<open>Invariants of the storage\<close>

text \<open>
  The ids in use are the ids from 1 to \<open>confessionCount\<close>: the \<open>exists\<close> flag of a
  record is set exactly for those.
\<close>

definition ids_inv :: "'c ledger \<Rightarrow> bool" where
  "ids_inv s = (\<forall>i. exists (confessions s i) \<longleftrightarrow> (0 < i \<and> i \<le> confessionCount s))"

text \<open>
  Only records that exist have upvotes, and the public counter of a record is the number
  of addresses recorded in the upvote relation for it.
\<close>

definition votes_inv :: "'c ledger \<Rightarrow> bool" where
  "votes_inv s =
     ((\<forall>i v. hasUpvoted s i v \<longrightarrow> exists (confessions s i)) \<and>
      (\<forall>i. unat (voteCount (confessions s i)) = card {v. hasUpvoted s i v}))"

text \<open>The encrypted counter of a record that exists decrypts to its public counter.\<close>

definition dec_inv :: "('c \<Rightarrow> uint32) \<Rightarrow> 'c ledger \<Rightarrow> bool" where
  "dec_inv dec s =
     (\<forall>i. exists (confessions s i) \<longrightarrow>
        dec (encryptedVotes (confessions s i)) = voteCount (confessions s i))"

subsection \<open>Concrete principals and runs\<close>

definition alice :: address where "alice = 0xA11CE"
definition bob :: address where "bob = 0xB0B"
definition deployer :: address where "deployer = 0xD0"

definition hello :: bytes where
  "hello = map of_char ''hello world test''"

definition at :: "address \<Rightarrow> uint256 \<Rightarrow> env" where
  "at a t = \<lparr>sender = a, timestamp = t\<rparr>"

text \<open>
  A run that fills the 32-bit public counter of one record: \<open>writer\<close> submits confession
  1, then the addresses \<open>1, \<dots>, n\<close> upvote it one after the other. \<open>crowded n\<close> is the
  storage and log this run ends in under the transparent capability.
\<close>

definition writer :: address where "writer = 2 ^ 32"

definition crowd_vote :: "nat \<Rightarrow> tx" where
  "crowd_vote k = (at (of_nat k) 1000, Upvote 1)"

definition crowd_run :: "nat \<Rightarrow> tx list" where
  "crowd_run n = (at writer 1000, SubmitConfession [1]) # map crowd_vote [1..<Suc n]"

definition crowded :: "nat \<Rightarrow> uint32 ledger" where
  "crowded n =
     \<lparr>confessions = (\<lambda>_. zeroConfession transparent)(1 :=
        \<lparr>message = [1], encryptedVotes = of_nat n, voteCount = of_nat n, createdAt = 1000,
         author = writer, ipfsCID = 0, exists = True\<rparr>),
      hasUpvoted = (\<lambda>i v. i = 1 \<and> 1 \<le> unat v \<and> unat v \<le> n),
      lastSubmissionTime = (\<lambda>_. 0)(writer := 1000),
      confessionCount = 1,
      rateLimitCooldown = 300,
      paused = False,
      owner = deployer,
      events = ConfessionSubmitted 1 writer 1000 #
        map (\<lambda>k. ConfessionUpvoted 1 (of_nat k) 1000) [1..<Suc n]\<rparr>"

definition demo_run :: "tx list" where
  "demo_run =
     [(at alice 300, SubmitConfession hello),
      (at bob 310, Upvote 1),
      (at bob 320, Upvote 1),
      (at alice 400, SubmitConfession hello),
      (at bob 400, SubmitConfession hello),
      (at alice 410, Upvote 1)]"

text \<open>Storages used as concrete inputs: one confession listed, and then paused by the owner.\<close>

definition paused_run :: "tx list" where
  "paused_run = [(at alice 300, SubmitConfession hello), (at deployer 400, EmergencyPause)]"

definition listed :: "uint32 ledger" where
  "listed = run transparent [(at alice 300, SubmitConfession hello)]
     (constructor transparent deployer)"

definition halted :: "uint32 ledger" where
  "halted = run transparent paused_run (constructor transparent deployer)"

text \<open>
  What others do after alice's first submission: bob submits and upvotes, alice tries to
  submit again too early, and the owner tries to set the \<open>ipfsCID\<close> of her record.
\<close>

definition busy_run :: "tx list" where
  "busy_run =
     [(at bob 310, SubmitConfession hello),
      (at bob 315, Upvote 1),
      (at alice 317, SubmitConfession hello),
      (at deployer 318, UpdateIPFSCID 1 7)]"

section \<open>Properties\<close>

subsection \<open>What a successful call did\<close>


lemma upvote_InrD:
  assumes "upvote F e cid s = Inr s'"
  shows "\<not> paused s" "exists (confessions s cid)" "\<not> hasUpvoted s cid (sender e)"
    "unat (voteCount (confessions s cid)) + 1 < 2 ^ LENGTH(32)"
    "s' = s\<lparr>confessions := (confessions s)(cid :=
                (confessions s cid)\<lparr>encryptedVotes :=
                    fhe_add F (encryptedVotes (confessions s cid)) (asEuint32 F 1),
                  voteCount := voteCount (confessions s cid) + 1\<rparr>),
              hasUpvoted := (hasUpvoted s)(cid := (hasUpvoted s cid)(sender e := True)),
              events := events s @ [ConfessionUpvoted cid (sender e) (timestamp e)]\<rparr>"
  using assms
  by (auto simp: upvote_def Let_def checked_add_def split: if_splits sum.splits)

lemma submitConfession_InrD:
  assumes "submitConfession F e msg s = Inr (s', i)"
  shows "\<not> paused s" "msg \<noteq> []"
    "unat (lastSubmissionTime s (sender e)) + unat (rateLimitCooldown s) < 2 ^ LENGTH(256)"
    "lastSubmissionTime s (sender e) + rateLimitCooldown s \<le> timestamp e"
    "unat (confessionCount s) + 1 < 2 ^ LENGTH(256)"
    "i = confessionCount s + 1"
    "s' = s\<lparr>confessionCount := i,
              confessions := (confessions s)(i :=
                \<lparr>message = msg, encryptedVotes = asEuint32 F 0, voteCount = 0,
                 createdAt = ucast (timestamp e), author = sender e, ipfsCID = 0,
                 exists = True\<rparr>),
              lastSubmissionTime := (lastSubmissionTime s)(sender e := timestamp e),
              events := events s @ [ConfessionSubmitted i (sender e) (timestamp e)]\<rparr>"
  using assms
  by (auto simp: submitConfession_def checked_add_def split: if_splits sum.splits)

lemma unat_succ:
  fixes c :: "'a::len word"
  assumes "unat c + 1 < 2 ^ LENGTH('a)"
  shows "unat (c + 1) = Suc (unat c)"
proof -
  have "unat c + unat (1::'a word) < 2 ^ LENGTH('a)" using assms by simp
  then have "unat (c + 1) = unat c + unat (1::'a word)"
    by (simp only: unat_add_lem)
  then show ?thesis by simp
qed

lemma next_id_range:
  fixes c j :: "'a::len word"
  assumes "unat c + 1 < 2 ^ LENGTH('a)"
  shows "(0 < j \<and> j \<le> c + 1) \<longleftrightarrow> ((0 < j \<and> j \<le> c) \<or> j = c + 1)"
proof -
  have "(0 < unat j \<and> unat j \<le> Suc (unat c)) \<longleftrightarrow>
        ((0 < unat j \<and> unat j \<le> unat c) \<or> unat j = Suc (unat c))"
    by arith
  then show ?thesis
    by (simp add: word_le_nat_alt word_less_nat_alt word_unat_eq_iff unat_succ [OF assms])
qed

lemma next_id_fresh:
  fixes c :: "'a::len word"
  assumes "unat c + 1 < 2 ^ LENGTH('a)"
  shows "\<not> (c + 1 \<le> c)"
  by (simp add: word_le_nat_alt unat_succ [OF assms])

text \<open>Every call other than a submission and an upvote.\<close>

lemma admin_InrD:
  assumes "dispatch F (e, c) s = Inr s'"
    and "\<forall>m. c \<noteq> SubmitConfession m" and "\<forall>j. c \<noteq> Upvote j"
  shows "confessionCount s' = confessionCount s"
    and "hasUpvoted s' = hasUpvoted s"
    and "\<forall>i. exists (confessions s' i) = exists (confessions s i)"
    and "\<forall>i. voteCount (confessions s' i) = voteCount (confessions s i)"
    and "\<forall>i. encryptedVotes (confessions s' i) = encryptedVotes (confessions s i)"
  using assms
  by (cases c; auto simp: updateRateLimit_def togglePause_def emergencyPause_def unpause_def
      updateIPFSCID_def onlyOwner_def split: if_splits)+

lemma ids_inv_constructor: "ids_inv (constructor F d)"
  by (auto simp: ids_inv_def constructor_def zeroConfession_def word_le_nat_alt word_less_nat_alt)

lemma votes_inv_constructor: "votes_inv (constructor F d)"
  by (simp add: votes_inv_def constructor_def zeroConfession_def)

lemma dec_inv_constructor: "dec_inv dec (constructor F d)"
  by (simp add: dec_inv_def constructor_def zeroConfession_def)

lemma ids_inv_submit:
  assumes "ids_inv s" and "submitConfession F e msg s = Inr (s', i)"
  shows "ids_inv s'"
proof -
  note d = submitConfession_InrD [OF assms(2)]
  have "\<forall>j. exists (confessions s' j) \<longleftrightarrow> (0 < j \<and> j \<le> confessionCount s')"
    using assms(1) next_id_range [OF d(5)]
    by (simp add: d(7) d(6) ids_inv_def)
  then show ?thesis by (simp add: ids_inv_def)
qed

lemma ids_inv_upvote:
  assumes "ids_inv s" and "upvote F e cid s = Inr s'"
  shows "ids_inv s'"
  using assms(1) upvote_InrD(2) [OF assms(2)]
  by (simp add: upvote_InrD(5) [OF assms(2)] ids_inv_def)

lemma ids_inv_dispatch:
  assumes "ids_inv s" and "dispatch F t s = Inr s'"
  shows "ids_inv s'"
proof (cases t)
  case (Pair e c)
  show ?thesis
  proof (cases "(\<exists>m. c = SubmitConfession m) \<or> (\<exists>j. c = Upvote j)")
    case True
    then show ?thesis
      using assms Pair ids_inv_submit [of s F e _ s'] ids_inv_upvote [of s F e _ s']
      by (auto simp: map_sum_def split: sum.splits)
  next
    case False
    then have "confessionCount s' = confessionCount s"
      and "\<forall>i. exists (confessions s' i) = exists (confessions s i)"
      using admin_InrD [of F e c s s'] assms(2) Pair by auto
    then show ?thesis using assms(1) by (simp add: ids_inv_def)
  qed
qed

lemma votes_inv_submit:
  assumes "ids_inv s" and "votes_inv s" and "submitConfession F e msg s = Inr (s', i)"
  shows "votes_inv s'"
proof -
  note d = submitConfession_InrD [OF assms(3)]
  have fresh: "\<not> exists (confessions s i)"
    using assms(1) next_id_fresh [OF d(5)] by (simp add: ids_inv_def d(6))
  then have none: "{v. hasUpvoted s i v} = {}"
    using assms(2) by (auto simp: votes_inv_def)
  show ?thesis
    unfolding votes_inv_def
  proof (intro conjI allI impI)
    fix j v assume "hasUpvoted s' j v"
    then show "exists (confessions s' j)"
      using assms(2) by (auto simp: d(7) votes_inv_def)
  next
    fix j show "unat (voteCount (confessions s' j)) = card {v. hasUpvoted s' j v}"
      using assms(2) none by (cases "j = i") (auto simp: d(7) votes_inv_def)
  qed
qed

lemma votes_inv_upvote:
  assumes "votes_inv s" and "upvote F e cid s = Inr s'"
  shows "votes_inv s'"
proof -
  note d = upvote_InrD [OF assms(2)]
  have ins: "{v. hasUpvoted s' cid v} = insert (sender e) {v. hasUpvoted s cid v}"
    by (auto simp: d(5))
  have "card {v. hasUpvoted s' cid v} = Suc (card {v. hasUpvoted s cid v})"
    using d(3) by (simp add: ins)
  moreover have "unat (voteCount (confessions s' cid)) = Suc (unat (voteCount (confessions s cid)))"
    using unat_succ [of "voteCount (confessions s cid)"] d(4) by (simp add: d(5))
  ultimately have tgt: "unat (voteCount (confessions s' cid)) = card {v. hasUpvoted s' cid v}"
    using assms(1) by (simp add: votes_inv_def)
  show ?thesis
    unfolding votes_inv_def
  proof (intro conjI allI impI)
    fix j v assume "hasUpvoted s' j v"
    then show "exists (confessions s' j)"
      using assms(1) d(2) by (auto simp: d(5) votes_inv_def split: if_splits)
  next
    fix j show "unat (voteCount (confessions s' j)) = card {v. hasUpvoted s' j v}"
    proof (cases "j = cid")
      case True then show ?thesis using tgt by simp
    next
      case False then show ?thesis using assms(1) by (simp add: d(5) votes_inv_def)
    qed
  qed
qed

lemma votes_inv_dispatch:
  assumes "ids_inv s" and "votes_inv s" and "dispatch F t s = Inr s'"
  shows "votes_inv s'"
proof (cases t)
  case (Pair e c)
  show ?thesis
  proof (cases "(\<exists>m. c = SubmitConfession m) \<or> (\<exists>j. c = Upvote j)")
    case True
    then show ?thesis
      using assms Pair votes_inv_submit [of s F e _ s'] votes_inv_upvote [of s F e _ s']
      by (auto simp: map_sum_def split: sum.splits)
  next
    case False
    then have "hasUpvoted s' = hasUpvoted s"
      and "\<forall>i. exists (confessions s' i) = exists (confessions s i)"
      and "\<forall>i. voteCount (confessions s' i) = voteCount (confessions s i)"
      using admin_InrD [of F e c s s'] assms(3) Pair by auto
    then show ?thesis using assms(2) by (simp add: votes_inv_def)
  qed
qed

lemma dec_inv_dispatch:
  assumes "decrypts F dec" and "dec_inv dec s" and "dispatch F t s = Inr s'"
  shows "dec_inv dec s'"
proof (cases t)
  case (Pair e c)
  show ?thesis
  proof (cases c)
    case (SubmitConfession m)
    then obtain i where sub: "submitConfession F e m s = Inr (s', i)"
      using assms(3) Pair by (auto simp: map_sum_def split: sum.splits)
    show ?thesis
      using assms(1,2) by (simp add: submitConfession_InrD(7) [OF sub] dec_inv_def decrypts_def)
  next
    case (Upvote j)
    then have up: "upvote F e j s = Inr s'" using assms(3) Pair by simp
    show ?thesis
      using assms(1,2) upvote_InrD(2) [OF up]
      by (simp add: upvote_InrD(5) [OF up] dec_inv_def decrypts_def)
  qed (use assms(2,3) Pair admin_InrD [of F e c s s'] in \<open>simp_all add: dec_inv_def\<close>)
qed

lemma transact_cases:
  "(\<exists>f. dispatch F t s = Inl f \<and> transact F t s = s) \<or> dispatch F t s = Inr (transact F t s)"
  by (cases "dispatch F t s") (simp_all add: transact_def)

lemma ids_inv_transact: "ids_inv s \<Longrightarrow> ids_inv (transact F t s)"
  using transact_cases [of F t s] ids_inv_dispatch [of s F t] by auto

lemma votes_inv_transact: "ids_inv s \<Longrightarrow> votes_inv s \<Longrightarrow> votes_inv (transact F t s)"
  using transact_cases [of F t s] votes_inv_dispatch [of s F t] by auto

lemma dec_inv_transact: "decrypts F dec \<Longrightarrow> dec_inv dec s \<Longrightarrow> dec_inv dec (transact F t s)"
  using transact_cases [of F t s] dec_inv_dispatch [of F dec s t] by auto

lemma ids_inv_run: "ids_inv s \<Longrightarrow> ids_inv (run F ts s)"
  by (induction ts arbitrary: s) (simp_all add: ids_inv_transact)

lemma votes_inv_run: "ids_inv s \<Longrightarrow> votes_inv s \<Longrightarrow> votes_inv (run F ts s)"
  by (induction ts arbitrary: s) (simp_all add: ids_inv_transact votes_inv_transact)

lemma dec_inv_run: "decrypts F dec \<Longrightarrow> dec_inv dec s \<Longrightarrow> dec_inv dec (run F ts s)"
  by (induction ts arbitrary: s) (simp_all add: dec_inv_transact)

lemma transact_submit_Inr:
  "submitConfession F e m s = Inr (s', i) \<Longrightarrow> transact F (e, SubmitConfession m) s = s'"
  by (simp add: transact_def)

lemma transact_submit_Inl:
  "submitConfession F e m s = Inl f \<Longrightarrow> transact F (e, SubmitConfession m) s = s"
  by (simp add: transact_def)

lemma transact_upvote_Inr: "upvote F e j s = Inr s' \<Longrightarrow> transact F (e, Upvote j) s = s'"
  by (simp add: transact_def)

lemma transact_upvote_Inl: "upvote F e j s = Inl f \<Longrightarrow> transact F (e, Upvote j) s = s"
  by (simp add: transact_def)

lemma transact_count_other:
  assumes "\<forall>m. c \<noteq> SubmitConfession m"
  shows "confessionCount (transact F (e, c) s) = confessionCount s"
proof (cases "dispatch F (e, c) s")
  case (Inl f) then show ?thesis by (simp add: transact_def)
next
  case (Inr s')
  show ?thesis
  proof (cases "\<exists>j. c = Upvote j")
    case True
    then show ?thesis using Inr by (auto simp: transact_def dest!: upvote_InrD(5))
  next
    case False
    then show ?thesis using Inr assms admin_InrD(1) [of F e c s s'] by (simp add: transact_def)
  qed
qed

lemma transact_hasUpvoted_other:
  assumes "\<forall>j. c \<noteq> Upvote j"
  shows "hasUpvoted (transact F (e, c) s) = hasUpvoted s"
proof (cases "dispatch F (e, c) s")
  case (Inl f) then show ?thesis by (simp add: transact_def)
next
  case (Inr s')
  show ?thesis
  proof (cases "\<exists>m. c = SubmitConfession m")
    case True
    then show ?thesis using Inr
      by (auto simp: transact_def map_sum_def split: sum.splits dest!: submitConfession_InrD(7))
  next
    case False
    then show ?thesis using Inr assms admin_InrD(2) [of F e c s s'] by (simp add: transact_def)
  qed
qed

lemma returned_ids_other:
  assumes "\<forall>m. c \<noteq> SubmitConfession m"
  shows "returned_ids F ((e, c) # ts) s = returned_ids F ts (transact F (e, c) s)"
  using assms by (cases c) simp_all

lemma upvoters_other:
  assumes "\<forall>j. c \<noteq> Upvote j"
  shows "upvoters F cid ((e, c) # ts) s = upvoters F cid ts (transact F (e, c) s)"
  using assms by (cases c) simp_all

text \<open>Ids returned from a state whose counter is \<open>c\<close> are \<open>c + 1, c + 2, \<dots>\<close>.\<close>

lemma returned_ids_run:
  "unat (confessionCount (run F ts s)) = unat (confessionCount s) + length (returned_ids F ts s)
   \<and> returned_ids F ts s =
       map of_nat [Suc (unat (confessionCount s)) ..<
                   Suc (unat (confessionCount s) + length (returned_ids F ts s))]"
proof (induction ts arbitrary: s)
  case Nil
  show ?case by simp
next
  case (Cons t ts)
  obtain e c where t: "t = (e, c)" by (cases t)
  show ?case
  proof (cases "\<exists>msg. c = SubmitConfession msg")
    case False
    then have other: "\<forall>m. c \<noteq> SubmitConfession m" by simp
    show ?thesis
      using Cons [of "transact F (e, c) s"]
      by (simp add: t returned_ids_other [OF other] transact_count_other [OF other])
  next
    case True
    then obtain msg where c: "c = SubmitConfession msg" by blast
    show ?thesis
    proof (cases "submitConfession F e msg s")
      case (Inl f)
      then show ?thesis
        using Cons [of s] by (simp add: t c transact_submit_Inl [OF Inl])
    next
      case (Inr p)
      obtain s' i where p: "p = (s', i)" by (cases p)
      note sub = Inr [unfolded p]
      note d = submitConfession_InrD [OF sub]
      have cnt: "unat (confessionCount s') = Suc (unat (confessionCount s))"
        using unat_succ [OF d(5)] by (simp add: d(7) d(6))
      have i: "i = of_nat (Suc (unat (confessionCount s)))"
        by (simp add: d(6))
      from Cons [of s']
      have ih: "unat (confessionCount (run F ts s')) =
                unat (confessionCount s') + length (returned_ids F ts s')"
        "returned_ids F ts s' =
           map of_nat [Suc (unat (confessionCount s')) ..<
                       Suc (unat (confessionCount s') + length (returned_ids F ts s'))]"
        by simp_all
      have "returned_ids F (t # ts) s = i # returned_ids F ts s'"
        by (simp add: t c sub)
      moreover have "[Suc (unat (confessionCount s)) ..<
                     Suc (unat (confessionCount s) + Suc (length (returned_ids F ts s')))] =
                   Suc (unat (confessionCount s)) #
                     [Suc (Suc (unat (confessionCount s))) ..<
                       Suc (Suc (unat (confessionCount s)) + length (returned_ids F ts s'))]"
        by (subst upt_conv_Cons) simp_all
      ultimately show ?thesis
        using ih i by (simp only: t c transact_submit_Inr [OF sub] cnt run.simps list.size
            list.map add_Suc_right add_Suc) simp
    qed
  qed
qed

lemma upvoters_run:
  "distinct (upvoters F cid ts s)
   \<and> set (upvoters F cid ts s) \<inter> {v. hasUpvoted s cid v} = {}
   \<and> {v. hasUpvoted (run F ts s) cid v} = {v. hasUpvoted s cid v} \<union> set (upvoters F cid ts s)"
proof (induction ts arbitrary: s)
  case Nil
  show ?case by simp
next
  case (Cons t ts)
  obtain e c where t: "t = (e, c)" by (cases t)
  show ?case
  proof (cases "\<exists>j. c = Upvote j")
    case False
    then have other: "\<forall>j. c \<noteq> Upvote j" by simp
    show ?thesis
      using Cons [of "transact F (e, c) s"]
      by (simp add: t upvoters_other [OF other] transact_hasUpvoted_other [OF other])
  next
    case True
    then obtain j where c: "c = Upvote j" by blast
    show ?thesis
    proof (cases "upvote F e j s")
      case (Inl f)
      then show ?thesis
        using Cons [of s] by (simp add: t c transact_upvote_Inl [OF Inl])
    next
      case (Inr s')
      note d = upvote_InrD [OF Inr]
      note ih = Cons [of s']
      show ?thesis
      proof (cases "j = cid")
        case True
        have "{v. hasUpvoted s' cid v} = insert (sender e) {v. hasUpvoted s cid v}"
          using True by (auto simp: d(5))
        moreover note up = Inr [unfolded True]
        ultimately show ?thesis
          using ih d(3) unfolding t c True by (auto simp: up transact_upvote_Inr [OF up])
      next
        case False
        have "{v. hasUpvoted s' cid v} = {v. hasUpvoted s cid v}"
          using False by (auto simp: d(5))
        then show ?thesis
          using ih False by (simp add: t c Inr transact_upvote_Inr [OF Inr])
      qed
    qed
  qed
qed

lemma unat_word_of_nat_inj:
  "inj_on (of_nat :: nat \<Rightarrow> 'a::len word) {k. k < 2 ^ LENGTH('a)}"
  by (rule inj_onI) (metis mem_Collect_eq mod_less unat_of_nat)

subsection \<open>Confession ids\<close>

lemmas run_defs = transact_def submitConfession_def upvote_def emergencyPause_def
  unpause_def togglePause_def updateRateLimit_def updateIPFSCID_def onlyOwner_def
  constructor_def at_def hello_def checked_add_def alice_def bob_def deployer_def
  zeroConfession_def transparent_def Let_def

text \<open>
  Claim C1. Take any run of transactions from the storage the constructor leaves, with
  calls of every kind by any callers at any times, failed calls included. The ids that
  the successful \<^verbatim>\<open>submitConfession\<close> calls of the run return are \<open>1, 2, 3, \<dots>\<close> in call
  order: the list of returned ids is the list of the numbers from 1 to its own length,
  so there is no gap and no id is returned twice. After the run \<open>confessionCount\<close> is the
  number of confessions created, and the ids whose record exists are exactly those from
  1 to \<open>confessionCount\<close>.
\<close>

theorem submit_ids_sequential:
  "returned_ids F ts (constructor F d) =
     map of_nat [1 ..< Suc (length (returned_ids F ts (constructor F d)))]
   \<and> distinct (returned_ids F ts (constructor F d))
   \<and> unat (confessionCount (run F ts (constructor F d))) =
       length (returned_ids F ts (constructor F d))
   \<and> (\<forall>i. exists (confessions (run F ts (constructor F d)) i) \<longleftrightarrow>
           (1 \<le> i \<and> i \<le> confessionCount (run F ts (constructor F d))))"
proof -
  let ?s = "constructor F d" and ?n = "length (returned_ids F ts (constructor F d))"
  have c0: "unat (confessionCount ?s) = 0" by (simp add: constructor_def)
  have cnt: "unat (confessionCount (run F ts ?s)) = ?n"
    and ids: "returned_ids F ts ?s = map of_nat [1 ..< Suc ?n]"
    using returned_ids_run [of F ts ?s] by (simp_all add: c0)
  have "?n < 2 ^ LENGTH(256)"
    using unsigned_less [of "confessionCount (run F ts ?s)", where 'a = nat] cnt by simp
  then have "inj_on (of_nat :: nat \<Rightarrow> uint256) (set [1 ..< Suc ?n])"
    by (intro inj_on_subset [OF unat_word_of_nat_inj]) auto
  then have "distinct (map (of_nat :: nat \<Rightarrow> uint256) [1 ..< Suc ?n])"
    by (simp add: distinct_map)
  then have dist: "distinct (returned_ids F ts ?s)" using ids by simp
  have "ids_inv (run F ts ?s)" by (simp add: ids_inv_run ids_inv_constructor)
  then have "\<forall>i. exists (confessions (run F ts ?s) i) \<longleftrightarrow>
           (1 \<le> i \<and> i \<le> confessionCount (run F ts ?s))"
    by (auto simp: ids_inv_def word_le_nat_alt word_less_nat_alt)
  then show ?thesis using ids dist cnt by blast
qed

theorem submit_ids_sequential_witness:
  "returned_ids transparent demo_run (constructor transparent deployer) = [1, 2]
   \<and> distinct (returned_ids transparent demo_run (constructor transparent deployer))
   \<and> unat (confessionCount (run transparent demo_run (constructor transparent deployer))) = 2
   \<and> exists (confessions (run transparent demo_run (constructor transparent deployer)) 2)
   \<and> \<not> exists (confessions (run transparent demo_run (constructor transparent deployer)) 3)"
  using submit_ids_sequential [of transparent demo_run deployer]
  by (simp add: run_defs demo_run_def)

subsection \<open>Vote counters\<close>

text \<open>
  Claim C2. Take any run of transactions from the storage the constructor leaves and any
  confession id. Let \<open>vs\<close> be the callers of the successful \<^verbatim>\<open>upvote\<close> calls on that id
  in the run, so that \<open>length vs\<close> is the number \<open>k\<close> of successful upvotes. These callers
  are pairwise distinct, they are exactly the addresses \<^verbatim>\<open>hasUserUpvoted\<close> reports, and
  the public counter \<open>voteCount\<close> of the record, read as a number, is \<open>k\<close>. For every
  capability with a decryption oracle, the transparent one among them, the encrypted
  counter of a record that exists decrypts to the same \<open>k\<close>.
\<close>

theorem voteCount_counts_upvoters:
  assumes "s' = run F ts (constructor F d)" and "vs = upvoters F cid ts (constructor F d)"
  shows "distinct vs
    \<and> (\<forall>v. hasUserUpvoted cid v s' \<longleftrightarrow> v \<in> set vs)
    \<and> unat (voteCount (confessions s' cid)) = length vs
    \<and> (decrypts F dec \<and> exists (confessions s' cid) \<longrightarrow>
         unat (dec (encryptedVotes (confessions s' cid))) = length vs)"
proof -
  have u: "distinct vs" "{v. hasUpvoted s' cid v} = set vs"
    using upvoters_run [of F cid ts "constructor F d"] assms
    by (simp_all add: constructor_def)
  have "votes_inv s'"
    unfolding assms(1) by (simp add: votes_inv_run ids_inv_constructor votes_inv_constructor)
  then have "unat (voteCount (confessions s' cid)) = card {v. hasUpvoted s' cid v}"
    by (simp add: votes_inv_def)
  then have vc: "unat (voteCount (confessions s' cid)) = length vs"
    using u by (simp add: distinct_card)
  have "unat (dec (encryptedVotes (confessions s' cid))) = length vs"
    if "decrypts F dec" and "exists (confessions s' cid)"
  proof -
    have "dec_inv dec s'"
      unfolding assms(1) using that(1) by (simp add: dec_inv_run dec_inv_constructor)
    then show ?thesis using that(2) vc by (simp add: dec_inv_def)
  qed
  moreover have "\<forall>v. hasUserUpvoted cid v s' \<longleftrightarrow> v \<in> set vs"
    using u(2) by (auto simp: hasUserUpvoted_def)
  ultimately show ?thesis using u(1) vc by blast
qed

theorem voteCount_counts_upvoters_witness:
  "decrypts transparent (\<lambda>c. c)
   \<and> upvoters transparent 1 demo_run (constructor transparent deployer) = [bob, alice]
   \<and> exists (confessions (run transparent demo_run (constructor transparent deployer)) 1)
   \<and> unat (voteCount (confessions (run transparent demo_run (constructor transparent deployer)) 1)) = 2
   \<and> unat (encryptedVotes
        (confessions (run transparent demo_run (constructor transparent deployer)) 1)) = 2"
proof -
  have d: "decrypts transparent (\<lambda>c. c)"
    by (simp add: decrypts_def transparent_def)
  have u: "[bob, alice] = upvoters transparent 1 demo_run (constructor transparent deployer)"
    by (simp add: run_defs demo_run_def)
  have x: "exists (confessions (run transparent demo_run (constructor transparent deployer)) 1)"
    by (simp add: run_defs demo_run_def)
  show ?thesis
    using voteCount_counts_upvoters [OF refl u, of "\<lambda>c. c"] d x
    by (simp add: u [symmetric])
qed

subsection \<open>Upvoting twice\<close>

lemma transact_keeps_vote:
  assumes "hasUpvoted s i v"
  shows "hasUpvoted (transact F t s) i v"
proof (cases t)
  case (Pair e c)
  show ?thesis
  proof (cases "\<exists>j. c = Upvote j")
    case False
    then show ?thesis using assms by (simp add: Pair transact_hasUpvoted_other)
  next
    case True
    then obtain j where c: "c = Upvote j" by blast
    show ?thesis
    proof (cases "upvote F e j s")
      case (Inl f)
      then show ?thesis using assms by (simp add: Pair c transact_upvote_Inl [OF Inl])
    next
      case (Inr s')
      then show ?thesis
        using assms by (auto simp: Pair c transact_upvote_Inr [OF Inr] upvote_InrD(5) [OF Inr])
    qed
  qed
qed

lemma run_keeps_vote: "hasUpvoted s i v \<Longrightarrow> hasUpvoted (run F ts s) i v"
  by (induction ts arbitrary: s) (simp_all add: transact_keeps_vote)

lemma transact_keeps_exists:
  assumes "exists (confessions s i)"
  shows "exists (confessions (transact F t s) i)"
proof (cases t)
  case (Pair e c)
  show ?thesis
  proof (cases "dispatch F (e, c) s")
    case (Inl f)
    then show ?thesis using assms by (simp add: Pair transact_def)
  next
    case (Inr s')
    have "exists (confessions s' i)"
    proof (cases c)
      case (SubmitConfession m)
      then obtain k where sub: "submitConfession F e m s = Inr (s', k)"
        using Inr by (auto simp: map_sum_def split: sum.splits)
      show ?thesis using assms by (simp add: submitConfession_InrD(7) [OF sub])
    next
      case (Upvote j)
      then have up: "upvote F e j s = Inr s'" using Inr by simp
      show ?thesis using assms by (auto simp: upvote_InrD(5) [OF up])
    qed (use assms Inr admin_InrD(3) [of F e c s s'] in simp_all)
    then show ?thesis using Inr by (simp add: Pair transact_def)
  qed
qed

lemma run_keeps_exists: "exists (confessions s i) \<Longrightarrow> exists (confessions (run F ts s) i)"
  by (induction ts arbitrary: s) (simp_all add: transact_keeps_exists)

lemma upvote_voted:
  assumes "hasUpvoted s cid (sender e)"
  shows "transact F (e, Upvote cid) s = s"
    and "\<not> paused s \<Longrightarrow> exists (confessions s cid) \<Longrightarrow>
         upvote F e cid s = Inl (Revert ''Already upvoted this confession'')"
  using assms by (simp_all add: transact_def upvote_def)

text \<open>
  Claim C3. Let an \<^verbatim>\<open>upvote\<close> of confession \<open>cid\<close> by a voter succeed and leave the
  storage \<open>s1\<close>. A second \<^verbatim>\<open>upvote\<close> of \<open>cid\<close> by the same voter, at any time, reverts
  with \<^verbatim>\<open>Already upvoted this confession\<close>, the kind \<open>AlreadyVoted\<close>, and the transaction
  leaves the whole storage and the log as they were, the public counter of the record
  with them. The same holds after any further run \<open>ts\<close> of transactions: the second
  upvote changes nothing, and it reverts with \<open>AlreadyVoted\<close> in every storage that is
  not paused (in a paused one the modifier \<^verbatim>\<open>notPaused\<close>, which runs first, rejects it).
\<close>

theorem second_upvote_AlreadyVoted:
  assumes "upvote F e cid s = Inr s1" and "sender e' = sender e"
  shows "upvote F e' cid s1 = Inl (Revert ''Already upvoted this confession'')
    \<and> fails_with (upvote F e' cid s1) AlreadyVoted
    \<and> transact F (e', Upvote cid) s1 = s1
    \<and> (\<forall>ts. transact F (e', Upvote cid) (run F ts s1) = run F ts s1
           \<and> (\<not> paused (run F ts s1) \<longrightarrow>
                upvote F e' cid (run F ts s1) = Inl (Revert ''Already upvoted this confession'')))"
proof -
  note d = upvote_InrD [OF assms(1)]
  have v: "hasUpvoted s1 cid (sender e')" and x: "exists (confessions s1 cid)"
    and p: "\<not> paused s1"
    using d(1,2) by (simp_all add: d(5) assms(2))
  have now: "upvote F e' cid s1 = Inl (Revert ''Already upvoted this confession'')"
    using upvote_voted(2) [OF v p x] .
  have later: "transact F (e', Upvote cid) (run F ts s1) = run F ts s1
      \<and> (\<not> paused (run F ts s1) \<longrightarrow>
            upvote F e' cid (run F ts s1) = Inl (Revert ''Already upvoted this confession''))" for ts
    using upvote_voted [OF run_keeps_vote [OF v, of F ts], of F] run_keeps_exists [OF x, of F ts]
    by simp
  show ?thesis
    using now later upvote_voted(1) [OF v, of F] by (simp add: fails_with_def)
qed

theorem second_upvote_AlreadyVoted_witness:
  "upvote transparent (at bob 310) 1 listed =
     Inr (transact transparent (at bob 310, Upvote 1) listed)
   \<and> sender (at bob 320) = sender (at bob 310)
   \<and> \<not> paused (run transparent [] (transact transparent (at bob 310, Upvote 1) listed))
   \<and> upvote transparent (at bob 320) 1 (transact transparent (at bob 310, Upvote 1) listed) =
       Inl (Revert ''Already upvoted this confession'')
   \<and> transact transparent (at bob 320, Upvote 1)
        (transact transparent (at bob 310, Upvote 1) listed) =
       transact transparent (at bob 310, Upvote 1) listed
   \<and> voteCount (confessions (transact transparent (at bob 320, Upvote 1)
        (transact transparent (at bob 310, Upvote 1) listed)) 1) = 1"
proof -
  have h: "upvote transparent (at bob 310) 1 listed =
     Inr (transact transparent (at bob 310, Upvote 1) listed)"
    and same: "sender (at bob 320) = sender (at bob 310)"
    and p: "\<not> paused (run transparent [] (transact transparent (at bob 310, Upvote 1) listed))"
    and v: "voteCount (confessions (transact transparent (at bob 310, Upvote 1) listed) 1) = 1"
    by (simp_all add: listed_def run_defs)
  show ?thesis
    using second_upvote_AlreadyVoted [OF h same] h same p v by simp
qed

subsection \<open>The pause\<close>

text \<open>
  Claim C5. In every storage with \<open>paused\<close> set, reachable or not, every
  \<^verbatim>\<open>submitConfession\<close> and every \<^verbatim>\<open>upvote\<close> reverts with \<^verbatim>\<open>Contract is paused\<close>, the kind
  \<open>Paused\<close>. The flag stays set after every transaction except an \<^verbatim>\<open>unpause\<close> or a
  \<^verbatim>\<open>togglePause\<close> sent by the owner. The view functions do not read the flag: each
  returns in the paused storage what it returns in the same storage with the flag
  cleared; \<^verbatim>\<open>getConfession\<close> returns the record of every id that exists,
  \<^verbatim>\<open>hasUserUpvoted\<close> and the getter \<^verbatim>\<open>confessionCount\<close> have no failing branch, and
  \<^verbatim>\<open>getRemainingCooldown\<close> returns whenever its checked addition does not overflow.
\<close>

theorem paused_blocks_submit_and_upvote:
  assumes "paused s"
  shows "(\<forall>e m. submitConfession F e m s = Inl (Revert ''Contract is paused'')
              \<and> fails_with (submitConfession F e m s) Paused)
    \<and> (\<forall>e cid. upvote F e cid s = Inl (Revert ''Contract is paused'')
              \<and> fails_with (upvote F e cid s) Paused)
    \<and> (\<forall>t. paused (transact F t s)
           \<or> (sender (fst t) = owner s \<and> (snd t = Unpause \<or> snd t = TogglePause)))
    \<and> (\<forall>i. getConfession i s = getConfession i (s\<lparr>paused := False\<rparr>))
    \<and> (\<forall>i. exists (confessions s i) \<longrightarrow> getConfession i s = Inr (confessions s i))
    \<and> (\<forall>i v. hasUserUpvoted i v s = hasUserUpvoted i v (s\<lparr>paused := False\<rparr>))
    \<and> (\<forall>e u. getRemainingCooldown e u s = getRemainingCooldown e u (s\<lparr>paused := False\<rparr>))
    \<and> (\<forall>e u. unat (lastSubmissionTime s u) + unat (rateLimitCooldown s) < 2 ^ 256 \<longrightarrow>
              (\<exists>r. getRemainingCooldown e u s = Inr r))
    \<and> confessionCount s = confessionCount (s\<lparr>paused := False\<rparr>)"
proof -
  have sub: "submitConfession F e m s = Inl (Revert ''Contract is paused'')" for e m
    using assms by (simp add: submitConfession_def)
  have up: "upvote F e cid s = Inl (Revert ''Contract is paused'')" for e cid
    using assms by (simp add: upvote_def)
  have stay: "paused (transact F t s)
           \<or> (sender (fst t) = owner s \<and> (snd t = Unpause \<or> snd t = TogglePause))" for t
  proof (cases t)
    case (Pair e c)
    show ?thesis
      using assms
      by (cases c) (auto simp: Pair transact_def sub up updateRateLimit_def togglePause_def
          emergencyPause_def unpause_def updateIPFSCID_def onlyOwner_def)
  qed
  have views: "getConfession i s = getConfession i (s\<lparr>paused := False\<rparr>)"
    "exists (confessions s i) \<longrightarrow> getConfession i s = Inr (confessions s i)"
    "hasUserUpvoted i v s = hasUserUpvoted i v (s\<lparr>paused := False\<rparr>)"
    "getRemainingCooldown e u s = getRemainingCooldown e u (s\<lparr>paused := False\<rparr>)"
    "unat (lastSubmissionTime s u) + unat (rateLimitCooldown s) < 2 ^ 256 \<longrightarrow>
              (\<exists>r. getRemainingCooldown e u s = Inr r)" for i v e u
    by (simp_all add: getConfession_def hasUserUpvoted_def getRemainingCooldown_def
        checked_add_def)
  show ?thesis
    using sub up stay views by (simp add: fails_with_def)
qed

theorem paused_blocks_submit_and_upvote_witness:
  "paused halted
   \<and> submitConfession transparent (at bob 500) hello halted = Inl (Revert ''Contract is paused'')
   \<and> upvote transparent (at bob 500) 1 halted = Inl (Revert ''Contract is paused'')
   \<and> paused (transact transparent (at bob 500, Unpause) halted)
   \<and> exists (confessions halted 1)
   \<and> getConfession 1 halted = Inr (confessions halted 1)
   \<and> unat (lastSubmissionTime halted alice) + unat (rateLimitCooldown halted) < 2 ^ 256
   \<and> getRemainingCooldown (at bob 500) alice halted = Inr 100"
proof -
  have p: "paused halted"
    and x: "exists (confessions halted 1)"
    and n: "unat (lastSubmissionTime halted alice) + unat (rateLimitCooldown halted) < 2 ^ 256"
    and b: "sender (fst (at bob 500, Unpause)) \<noteq> owner halted"
    and r: "getRemainingCooldown (at bob 500) alice halted = Inr 100"
    by (simp_all add: halted_def paused_run_def run_defs getRemainingCooldown_def)
  show ?thesis
    using paused_blocks_submit_and_upvote [OF p, of transparent] p x n b r by auto
qed

text \<open>
  Claim C6. The pause is the circuit breaker of the contract, and the two other functions
  a user can change the storage with, \<^verbatim>\<open>submitConfession\<close> and \<^verbatim>\<open>upvote\<close>, carry the
  modifier \<^verbatim>\<open>notPaused\<close>. \<^verbatim>\<open>updateIPFSCID\<close> carries no modifier. In the storage where
  alice has submitted confession 1 and the owner has then called \<^verbatim>\<open>emergencyPause\<close>,
  alice's \<^verbatim>\<open>submitConfession\<close> and \<^verbatim>\<open>upvote\<close> fail with \<open>Paused\<close>, and her
  \<^verbatim>\<open>updateIPFSCID(1, 7)\<close> succeeds and changes the \<open>ipfsCID\<close> of record 1 from 0 to 7.
\<close>

theorem updateIPFSCID_while_paused:
  "paused halted
   \<and> fails_with (submitConfession transparent (at alice 500) hello halted) Paused
   \<and> fails_with (upvote transparent (at alice 500) 1 halted) Paused
   \<and> \<not> isl (dispatch transparent (at alice 500, UpdateIPFSCID 1 7) halted)
   \<and> ipfsCID (confessions halted 1) = 0
   \<and> ipfsCID (confessions (transact transparent (at alice 500, UpdateIPFSCID 1 7) halted) 1) = 7
   \<and> transact transparent (at alice 500, UpdateIPFSCID 1 7) halted \<noteq> halted"
proof -
  have a: "paused halted"
    and b: "\<not> isl (dispatch transparent (at alice 500, UpdateIPFSCID 1 7) halted)"
    and c: "ipfsCID (confessions halted 1) = 0"
    and d: "ipfsCID (confessions (transact transparent (at alice 500, UpdateIPFSCID 1 7) halted) 1) = 7"
    and e: "fails_with (submitConfession transparent (at alice 500) hello halted) Paused"
      "fails_with (upvote transparent (at alice 500) 1 halted) Paused"
    by (simp_all add: halted_def paused_run_def run_defs fails_with_def)
  from c d have "transact transparent (at alice 500, UpdateIPFSCID 1 7) halted \<noteq> halted"
    by auto
  then show ?thesis using a b c d e by simp
qed

subsection \<open>The bound of the cooldown\<close>

text \<open>
  Claim C8. Called by the owner, \<^verbatim>\<open>updateRateLimit(3601)\<close> reverts with
  \<^verbatim>\<open>Cooldown too long (max 1 hour)\<close>, the kind \<open>InvalidInput\<close>, and the transaction leaves
  \<open>rateLimitCooldown\<close> as it was; \<^verbatim>\<open>updateRateLimit(3600)\<close> succeeds and sets
  \<open>rateLimitCooldown\<close> to 3600. For every argument, the call of the owner succeeds if
  and only if the argument is at most 3600, and fails with \<open>InvalidInput\<close> otherwise.
\<close>

theorem updateRateLimit_boundary:
  assumes "sender e = owner s"
  shows "updateRateLimit e 3601 s = Inl (Revert ''Cooldown too long (max 1 hour)'')
    \<and> fails_with (updateRateLimit e 3601 s) InvalidInput
    \<and> rateLimitCooldown (transact F (e, UpdateRateLimit 3601) s) = rateLimitCooldown s
    \<and> updateRateLimit e 3600 s =
        Inr (s\<lparr>rateLimitCooldown := 3600, events := events s @ [RateLimitUpdated 3600]\<rparr>)
    \<and> rateLimitCooldown (transact F (e, UpdateRateLimit 3600) s) = 3600
    \<and> (\<forall>n. (\<exists>s'. updateRateLimit e n s = Inr s') \<longleftrightarrow> n \<le> 3600)
    \<and> (\<forall>n. \<not> n \<le> 3600 \<longrightarrow> fails_with (updateRateLimit e n s) InvalidInput)"
  using assms by (auto simp: updateRateLimit_def onlyOwner_def fails_with_def transact_def)

theorem updateRateLimit_boundary_witness:
  "sender (at deployer 1000) = owner (constructor transparent deployer)
   \<and> updateRateLimit (at deployer 1000) 3601 (constructor transparent deployer) =
       Inl (Revert ''Cooldown too long (max 1 hour)'')
   \<and> rateLimitCooldown (transact transparent (at deployer 1000, UpdateRateLimit 3601)
        (constructor transparent deployer)) = 300
   \<and> rateLimitCooldown (transact transparent (at deployer 1000, UpdateRateLimit 3600)
        (constructor transparent deployer)) = 3600"
proof -
  have o: "sender (at deployer 1000) = owner (constructor transparent deployer)"
    and c: "rateLimitCooldown (constructor transparent deployer) = 300"
    by (simp_all add: at_def constructor_def)
  show ?thesis
    using updateRateLimit_boundary [OF o, of transparent] o c by simp
qed

subsection \<open>What an upvote leaves alone\<close>

text \<open>
  Claim C9. A successful \<^verbatim>\<open>upvote\<close> of confession \<open>cid\<close> writes the fields
  \<open>encryptedVotes\<close> and \<open>voteCount\<close> of that record and the entry of the upvote relation
  for \<open>cid\<close> and the caller. The other fields of the record (\<open>message\<close>, \<open>createdAt\<close>,
  \<open>author\<close>, \<open>ipfsCID\<close>, \<open>exists\<close>), every other record, every other entry of the upvote
  relation, \<open>confessionCount\<close>, \<open>lastSubmissionTime\<close> of every address,
  \<open>rateLimitCooldown\<close>, \<open>owner\<close> and \<open>paused\<close> are as before.
\<close>

theorem upvote_frame:
  assumes "upvote F e cid s = Inr s'"
  shows "encryptedVotes (confessions s' cid) =
        fhe_add F (encryptedVotes (confessions s cid)) (asEuint32 F 1)
    \<and> voteCount (confessions s' cid) = voteCount (confessions s cid) + 1
    \<and> hasUpvoted s' cid (sender e)
    \<and> message (confessions s' cid) = message (confessions s cid)
    \<and> createdAt (confessions s' cid) = createdAt (confessions s cid)
    \<and> author (confessions s' cid) = author (confessions s cid)
    \<and> ipfsCID (confessions s' cid) = ipfsCID (confessions s cid)
    \<and> exists (confessions s' cid) = exists (confessions s cid)
    \<and> (\<forall>j. j \<noteq> cid \<longrightarrow> confessions s' j = confessions s j)
    \<and> (\<forall>j v. (j, v) \<noteq> (cid, sender e) \<longrightarrow> hasUpvoted s' j v = hasUpvoted s j v)
    \<and> confessionCount s' = confessionCount s
    \<and> lastSubmissionTime s' = lastSubmissionTime s
    \<and> rateLimitCooldown s' = rateLimitCooldown s
    \<and> owner s' = owner s
    \<and> paused s' = paused s"
  using upvote_InrD(5) [OF assms] by auto

theorem upvote_frame_witness:
  "upvote transparent (at bob 310) 1 listed =
     Inr (transact transparent (at bob 310, Upvote 1) listed)
   \<and> voteCount (confessions listed 1) = 0
   \<and> voteCount (confessions (transact transparent (at bob 310, Upvote 1) listed) 1) = 1
   \<and> encryptedVotes (confessions (transact transparent (at bob 310, Upvote 1) listed) 1) = 1
   \<and> hasUpvoted (transact transparent (at bob 310, Upvote 1) listed) 1 bob
   \<and> \<not> hasUpvoted (transact transparent (at bob 310, Upvote 1) listed) 1 alice
   \<and> message (confessions (transact transparent (at bob 310, Upvote 1) listed) 1) = hello
   \<and> author (confessions (transact transparent (at bob 310, Upvote 1) listed) 1) = alice
   \<and> confessions (transact transparent (at bob 310, Upvote 1) listed) 2 = confessions listed 2
   \<and> confessionCount (transact transparent (at bob 310, Upvote 1) listed) = 1
   \<and> lastSubmissionTime (transact transparent (at bob 310, Upvote 1) listed) alice = 300"
proof -
  have h: "upvote transparent (at bob 310) 1 listed =
     Inr (transact transparent (at bob 310, Upvote 1) listed)"
    by (simp add: listed_def run_defs)
  have pre: "voteCount (confessions listed 1) = 0" "encryptedVotes (confessions listed 1) = 0"
    "\<not> hasUpvoted listed 1 alice" "message (confessions listed 1) = hello"
    "author (confessions listed 1) = alice" "confessionCount listed = 1"
    "lastSubmissionTime listed alice = 300" "sender (at bob 310) = bob" "alice \<noteq> bob"
    "\<And>a b. fhe_add transparent a b = a + b" "\<And>a. asEuint32 transparent a = a"
    by (simp_all add: listed_def run_defs)
  show ?thesis
    using upvote_frame [OF h] h pre by simp
qed

subsection \<open>The cooldown between two submissions\<close>

lemma unat_small_add:
  fixes t k :: uint256
  assumes "t < 2 ^ 64" and "k < 2 ^ 64"
  shows "unat (t + k) = unat t + unat k"
proof -
  have "unat t < 2 ^ 64" "unat k < 2 ^ 64"
    using assms by (simp_all add: word_less_nat_alt)
  then have "unat t + unat k < 2 ^ LENGTH(256)" by simp
  then show ?thesis by (simp only: unat_add_lem)
qed

lemma cooldown_run: "rateLimitCooldown s \<le> 3600 \<Longrightarrow> rateLimitCooldown (run F ts s) \<le> 3600"
proof (induction ts arbitrary: s)
  case Nil
  then show ?case by simp
next
  case (Cons t ts)
  obtain e c where t: "t = (e, c)" by (cases t)
  have "rateLimitCooldown (transact F (e, c) s) \<le> 3600"
    using Cons.prems
    by (cases c)
      (auto simp: transact_def submitConfession_def upvote_def updateRateLimit_def
        togglePause_def emergencyPause_def unpause_def updateIPFSCID_def onlyOwner_def Let_def
        split: sum.splits if_splits)
  then show ?case using Cons.IH by (simp add: t)
qed

lemma submitters_other:
  assumes "\<forall>m. c \<noteq> SubmitConfession m"
  shows "submitters F ((e, c) # ts) s = submitters F ts (transact F (e, c) s)"
  using assms by (cases c) simp_all

lemma transact_lastSubmission_other:
  assumes "\<forall>m. c \<noteq> SubmitConfession m"
  shows "lastSubmissionTime (transact F (e, c) s) = lastSubmissionTime s"
proof (cases "dispatch F (e, c) s")
  case (Inl f) then show ?thesis by (simp add: transact_def)
next
  case (Inr s')
  then have "lastSubmissionTime s' = lastSubmissionTime s"
    using assms
    by (cases c)
      (auto simp: upvote_def updateRateLimit_def togglePause_def emergencyPause_def unpause_def
        updateIPFSCID_def onlyOwner_def Let_def split: if_splits sum.splits)
  then show ?thesis using Inr by (simp add: transact_def)
qed

lemma lastSubmission_run:
  "a \<notin> set (submitters F ts s) \<Longrightarrow>
   lastSubmissionTime (run F ts s) a = lastSubmissionTime s a"
proof (induction ts arbitrary: s)
  case Nil
  show ?case by simp
next
  case (Cons t ts)
  obtain e c where t: "t = (e, c)" by (cases t)
  show ?case
  proof (cases "\<exists>msg. c = SubmitConfession msg")
    case False
    then have other: "\<forall>m. c \<noteq> SubmitConfession m" by simp
    show ?thesis
      using Cons.IH [of "transact F (e, c) s"] Cons.prems
      by (simp add: t submitters_other [OF other] transact_lastSubmission_other [OF other])
  next
    case True
    then obtain msg where c: "c = SubmitConfession msg" by blast
    show ?thesis
    proof (cases "submitConfession F e msg s")
      case (Inl f)
      then show ?thesis
        using Cons.IH [of s] Cons.prems by (simp add: t c transact_submit_Inl [OF Inl])
    next
      case (Inr p)
      obtain s' i where p: "p = (s', i)" by (cases p)
      note sub = Inr [unfolded p]
      have ne: "a \<noteq> sender e" and rest: "a \<notin> set (submitters F ts s')"
        using Cons.prems by (simp_all add: t c sub)
      have "lastSubmissionTime s' a = lastSubmissionTime s a"
        using ne by (simp add: submitConfession_InrD(7) [OF sub])
      then show ?thesis
        using Cons.IH [OF rest] by (simp add: t c transact_submit_Inr [OF sub])
    qed
  qed
qed

text \<open>
  Claim C4. Let a \<^verbatim>\<open>submitConfession\<close> of a caller succeed at time \<open>t1\<close> and leave the
  storage \<open>s1\<close>; the ledger is then not paused and the cooldown is the one the call was
  checked against. Let any run \<open>ts\<close> of transactions follow, by any callers at any times,
  in which the caller has no successful submission, and let it end in \<open>s2\<close>. The
  submissions, upvotes and other calls of everyone else leave the caller's
  \<open>lastSubmissionTime\<close> at \<open>t1\<close>. Let the caller then submit a non-empty message on \<open>s2\<close>
  at a time \<open>t2\<close> not before \<open>t1\<close>. When \<open>t2 - t1\<close> is less than the cooldown of \<open>s2\<close> the
  call does not succeed, and it reverts with
  \<^verbatim>\<open>Rate limit active - please wait before submitting again\<close>, the kind \<open>RateLimited\<close>,
  provided the ledger is not paused and the checked sum \<open>t1 + cooldown\<close> fits 256 bits; by
  \<open>cooldown_run\<close> the cooldown of a storage reached from the constructor is at most 3600,
  so the sum fits for every \<open>t1\<close> below \<open>2\<^sup>2\<^sup>5\<^sup>6 - 3600\<close>. When \<open>t2 - t1\<close> is at least the
  cooldown the call succeeds and returns the next id, the other preconditions being that
  the ledger is not paused and that the checked increment of \<open>confessionCount\<close> fits 256
  bits.
\<close>

theorem cooldown_between_submissions:
  assumes "submitConfession F e1 m1 s = Inr (s1, i1)"
    and "sender e1 \<notin> set (submitters F ts s1)"
    and "s2 = run F ts s1"
    and "sender e2 = sender e1"
    and "timestamp e1 \<le> timestamp e2"
    and "m2 \<noteq> []"
  shows "\<not> paused s1 \<and> rateLimitCooldown s1 = rateLimitCooldown s \<and> confessionCount s1 = i1
    \<and> lastSubmissionTime s2 (sender e2) = timestamp e1
    \<and> (unat (timestamp e2) - unat (timestamp e1) < unat (rateLimitCooldown s2) \<longrightarrow>
          (\<forall>r. submitConfession F e2 m2 s2 \<noteq> Inr r)
          \<and> (\<not> paused s2
               \<and> unat (timestamp e1) + unat (rateLimitCooldown s2) < 2 ^ 256 \<longrightarrow>
               submitConfession F e2 m2 s2 =
                 Inl (Revert ''Rate limit active - please wait before submitting again'')
               \<and> fails_with (submitConfession F e2 m2 s2) RateLimited))
    \<and> (unat (rateLimitCooldown s2) \<le> unat (timestamp e2) - unat (timestamp e1)
         \<and> \<not> paused s2 \<and> unat (confessionCount s2) + 1 < 2 ^ 256 \<longrightarrow>
          (\<exists>s3. submitConfession F e2 m2 s2 = Inr (s3, confessionCount s2 + 1)))"
proof -
  note d = submitConfession_InrD [OF assms(1)]
  let ?t1 = "timestamp e1" and ?t2 = "timestamp e2" and ?cd = "rateLimitCooldown s2"
  have s1: "\<not> paused s1" "lastSubmissionTime s1 (sender e1) = ?t1"
    "rateLimitCooldown s1 = rateLimitCooldown s" "confessionCount s1 = i1"
    using d(1) by (simp_all add: d(7))
  have last: "lastSubmissionTime s2 (sender e2) = ?t1"
    using lastSubmission_run [OF assms(2)] s1(2) by (simp add: assms(3,4))
  have le: "unat ?t1 \<le> unat ?t2" using assms(5) by (simp add: word_le_nat_alt)
  have t2: "unat ?t2 < 2 ^ 256" using unsigned_less [of ?t2, where 'a = nat] by simp
  have early: "submitConfession F e2 m2 s2 \<noteq> Inr r"
    if "unat ?t2 - unat ?t1 < unat ?cd" for r
  proof (cases "unat ?t1 + unat ?cd < 2 ^ 256")
    case False
    then show ?thesis using assms(6) by (simp add: submitConfession_def last checked_add_def)
  next
    case True
    then have "unat (?t1 + ?cd) = unat ?t1 + unat ?cd"
      by (simp add: unat_add_lem [symmetric])
    then have "\<not> ?t1 + ?cd \<le> ?t2" using that le by (simp add: word_le_nat_alt)
    then show ?thesis
      using assms(6) True by (simp add: submitConfession_def last checked_add_def)
  qed
  have limited: "submitConfession F e2 m2 s2 =
        Inl (Revert ''Rate limit active - please wait before submitting again'')"
    if "unat ?t2 - unat ?t1 < unat ?cd" and np: "\<not> paused s2"
      and fits: "unat ?t1 + unat ?cd < 2 ^ 256"
  proof -
    have "unat (?t1 + ?cd) = unat ?t1 + unat ?cd"
      using fits by (simp add: unat_add_lem [symmetric])
    then have "\<not> ?t1 + ?cd \<le> ?t2" using that(1) le by (simp add: word_le_nat_alt)
    then show ?thesis
      using assms(6) fits np by (simp add: submitConfession_def last checked_add_def)
  qed
  have late: "\<exists>s3. submitConfession F e2 m2 s2 = Inr (s3, confessionCount s2 + 1)"
    if "unat ?cd \<le> unat ?t2 - unat ?t1" and np: "\<not> paused s2"
      and "unat (confessionCount s2) + 1 < 2 ^ 256"
  proof -
    have fits: "unat ?t1 + unat ?cd < 2 ^ 256" using that(1) le t2 by arith
    then have "unat (?t1 + ?cd) = unat ?t1 + unat ?cd"
      by (simp add: unat_add_lem [symmetric])
    then have "?t1 + ?cd \<le> ?t2" using that(1) le by (simp add: word_le_nat_alt)
    then show ?thesis
      using assms(6) fits that(3) np by (simp add: submitConfession_def last checked_add_def)
  qed
  show ?thesis using s1(1,3,4) last early limited late by (simp add: fails_with_def)
qed

theorem cooldown_between_submissions_witness:
  "submitConfession transparent (at alice 300) hello (constructor transparent deployer) =
     Inr (listed, 1)
   \<and> submitters transparent busy_run listed = [bob]
   \<and> sender (at alice 300) \<notin> set (submitters transparent busy_run listed)
   \<and> hello \<noteq> []
   \<and> \<not> paused (run transparent busy_run listed)
   \<and> rateLimitCooldown (run transparent busy_run listed) = 300
   \<and> confessionCount (run transparent busy_run listed) = 2
   \<and> lastSubmissionTime (run transparent busy_run listed) bob = 310
   \<and> lastSubmissionTime (run transparent busy_run listed) alice = 300
   \<and> submitConfession transparent (at alice 320) hello (run transparent busy_run listed) =
       Inl (Revert ''Rate limit active - please wait before submitting again'')
   \<and> submitConfession transparent (at alice 599) hello (run transparent busy_run listed) =
       Inl (Revert ''Rate limit active - please wait before submitting again'')
   \<and> (\<exists>s3. submitConfession transparent (at alice 600) hello (run transparent busy_run listed) =
         Inr (s3, 3))"
proof -
  have h: "submitConfession transparent (at alice 300) hello (constructor transparent deployer) =
     Inr (listed, 1)"
    and sb: "submitters transparent busy_run listed = [bob]"
    and a: "sender (at alice 320) = sender (at alice 300)"
      "sender (at alice 599) = sender (at alice 300)"
      "sender (at alice 600) = sender (at alice 300)"
    and le: "timestamp (at alice 300) \<le> timestamp (at alice 320)"
      "timestamp (at alice 300) \<le> timestamp (at alice 599)"
      "timestamp (at alice 300) \<le> timestamp (at alice 600)"
    and m: "hello \<noteq> []"
    and p: "\<not> paused (run transparent busy_run listed)"
    and c: "rateLimitCooldown (run transparent busy_run listed) = 300"
    and n: "confessionCount (run transparent busy_run listed) = 2"
    and b: "lastSubmissionTime (run transparent busy_run listed) bob = 310"
    by (simp_all add: listed_def busy_run_def run_defs)
  have out: "sender (at alice 300) \<notin> set (submitters transparent busy_run listed)"
    by (simp add: sb at_def alice_def bob_def)
  have t: "unat (timestamp (at alice 320)) = 320" "unat (timestamp (at alice 599)) = 599"
    "unat (timestamp (at alice 600)) = 600" "unat (timestamp (at alice 300)) = 300"
    "sender (at alice 320) = alice" "timestamp (at alice 300) = 300"
    by (simp_all add: at_def)
  show ?thesis
    using cooldown_between_submissions [OF h out refl a(1) le(1) m]
      cooldown_between_submissions [OF h out refl a(2) le(2) m]
      cooldown_between_submissions [OF h out refl a(3) le(3) m] h sb out m p c n b
    by (simp add: t)
qed

subsection \<open>The scenario of the specification\<close>

text \<open>
  Claim C7, as stated, fails at its first step. A caller who has never submitted has
  \<open>lastSubmissionTime\<close> 0, and the cooldown is 300, so at \<open>t = 0\<close> the requirement
  \<^verbatim>\<open>block.timestamp >= lastSubmissionTime[msg.sender] + rateLimitCooldown\<close> is \<open>0 \<ge> 300\<close>:
  alice's first submission reverts with the rate limit message, and the remaining
  cooldown reported for her is 300. The message \<^verbatim>\<open>hello world test\<close> has 16 characters.
\<close>

theorem first_submission_at_time_zero:
  "rateLimitCooldown (constructor transparent deployer) = 300
   \<and> length hello = 16
   \<and> submitConfession transparent (at alice 0) hello (constructor transparent deployer) =
       Inl (Revert ''Rate limit active - please wait before submitting again'')
   \<and> fails_with
        (submitConfession transparent (at alice 0) hello (constructor transparent deployer))
        RateLimited
   \<and> getRemainingCooldown (at alice 0) alice (constructor transparent deployer) = Inr 300"
  by (simp add: run_defs getRemainingCooldown_def fails_with_def)

text \<open>
  Claim C7, amended: the same scenario with the clock starting at any \<open>t0\<close> from 300 on
  (and below \<open>2\<^sup>6\<^sup>4\<close>, so that \<open>createdAt\<close>, a 64-bit field, holds \<open>t0\<close>). From the storage
  the constructor leaves, alice's submission of \<^verbatim>\<open>hello world test\<close> at \<open>t0\<close> returns id 1
  with \<open>createdAt = t0\<close> and \<open>voteCount = 0\<close>; bob's upvote of id 1 at \<open>t0 + 10\<close> gives
  \<open>voteCount = 1\<close> and \<^verbatim>\<open>hasUserUpvoted(1, bob)\<close>; his second upvote at \<open>t0 + 20\<close> reverts
  with \<open>AlreadyVoted\<close>; alice's second submission at \<open>t0 + 100\<close> reverts with
  \<open>RateLimited\<close> and her remaining cooldown is exactly 200; her submission at \<open>t0 + 301\<close>
  succeeds and returns id 2.
\<close>

theorem scenario_after_cooldown:
  assumes "300 \<le> t0" and "t0 < 2 ^ 64"
  shows "\<exists>s1 s2 s3.
      submitConfession F (at a t0) hello (constructor F d) = Inr (s1, 1)
    \<and> unat (createdAt (confessions s1 1)) = unat t0
    \<and> voteCount (confessions s1 1) = 0
    \<and> upvote F (at b (t0 + 10)) 1 s1 = Inr s2
    \<and> voteCount (confessions s2 1) = 1
    \<and> hasUserUpvoted 1 b s2
    \<and> upvote F (at b (t0 + 20)) 1 s2 = Inl (Revert ''Already upvoted this confession'')
    \<and> fails_with (upvote F (at b (t0 + 20)) 1 s2) AlreadyVoted
    \<and> submitConfession F (at a (t0 + 100)) hello s2 =
        Inl (Revert ''Rate limit active - please wait before submitting again'')
    \<and> fails_with (submitConfession F (at a (t0 + 100)) hello s2) RateLimited
    \<and> getRemainingCooldown (at a (t0 + 100)) a s2 = Inr 200
    \<and> submitConfession F (at a (t0 + 301)) hello s2 = Inr (s3, 2)"
proof -
  have u: "unat (t0 + 300) = unat t0 + 300" "unat (t0 + 100) = unat t0 + 100"
    "unat (t0 + 301) = unat t0 + 301"
    using unat_small_add [OF assms(2), of 300] unat_small_add [OF assms(2), of 100]
      unat_small_add [OF assms(2), of 301] by simp_all
  have fits: "unat t0 + 300 < 2 ^ 256"
    using assms(2) by (simp add: word_less_nat_alt)
  have cmp: "\<not> t0 + 300 \<le> t0 + 100" "t0 + 300 \<le> t0 + 301"
    by (simp_all add: word_le_nat_alt u)
  have "unat t0 < 2 ^ 64"
    using assms(2) by (simp add: word_less_nat_alt)
  then have rt: "unat (ucast t0 :: uint64) = unat t0"
    by (simp add: unsigned_ucast_eq take_bit_nat_eq_self)
  show ?thesis
    using assms(1) fits cmp rt
    by (simp add: submitConfession_def upvote_def getRemainingCooldown_def hasUserUpvoted_def
        constructor_def at_def hello_def checked_add_def zeroConfession_def Let_def
        fails_with_def)
qed

theorem scenario_after_cooldown_witness:
  "(300 :: uint256) \<le> 300 \<and> (300 :: uint256) < 2 ^ 64
   \<and> (\<exists>s1 s2 s3.
      submitConfession transparent (at alice 300) hello (constructor transparent deployer) =
        Inr (s1, 1)
    \<and> unat (createdAt (confessions s1 1)) = 300
    \<and> voteCount (confessions s1 1) = 0
    \<and> upvote transparent (at bob 310) 1 s1 = Inr s2
    \<and> voteCount (confessions s2 1) = 1
    \<and> hasUserUpvoted 1 bob s2
    \<and> upvote transparent (at bob 320) 1 s2 = Inl (Revert ''Already upvoted this confession'')
    \<and> fails_with (upvote transparent (at bob 320) 1 s2) AlreadyVoted
    \<and> submitConfession transparent (at alice 400) hello s2 =
        Inl (Revert ''Rate limit active - please wait before submitting again'')
    \<and> fails_with (submitConfession transparent (at alice 400) hello s2) RateLimited
    \<and> getRemainingCooldown (at alice 400) alice s2 = Inr 200
    \<and> submitConfession transparent (at alice 601) hello s2 = Inr (s3, 2))"
proof -
  have h: "(300 :: uint256) \<le> 300" "(300 :: uint256) < 2 ^ 64" by simp_all
  show ?thesis
    using scenario_after_cooldown [OF h, of transparent alice deployer bob] h by simp
qed

subsection \<open>Upvotes by the author\<close>

lemma run_append: "run F (xs @ ys) s = run F ys (run F xs s)"
  by (induction xs arbitrary: s) simp_all

lemma crowd_run_Suc: "crowd_run (Suc n) = crowd_run n @ [crowd_vote (Suc n)]"
  by (simp add: crowd_run_def)

lemma crowded_0: "run transparent (crowd_run 0) (constructor transparent deployer) = crowded 0"
  by (simp add: crowd_run_def crowded_def writer_def run_defs fun_eq_iff)

lemma unat_voter:
  assumes "n < 2 ^ 32"
  shows "unat (of_nat n :: address) = n" and "unat (of_nat n :: uint32) = n"
proof -
  have "n < 2 ^ LENGTH(160)" using assms by (simp add: order_less_trans [OF assms])
  then show "unat (of_nat n :: address) = n" by (simp only: unat_of_nat mod_less)
  show "unat (of_nat n :: uint32) = n" using assms by (simp add: unat_of_nat)
qed

lemma crowded_Suc:
  assumes "Suc n < 2 ^ 32"
  shows "transact transparent (crowd_vote (Suc n)) (crowded n) = crowded (Suc n)"
proof -
  define k where "k = Suc n"
  have n: "n < 2 ^ 32" using assms by simp
  have k: "unat (of_nat k :: address) = Suc n"
    using unat_voter(1) [OF assms] by (simp only: k_def)
  have fresh: "\<not> hasUpvoted (crowded n) 1 (of_nat k)"
    by (simp add: crowded_def k)
  have room: "unat (voteCount (confessions (crowded n) 1)) + 1 < 2 ^ LENGTH(32)"
    using assms by (simp add: crowded_def unat_voter(2) [OF n])
  have rel: "(hasUpvoted (crowded n))(1 := (hasUpvoted (crowded n) 1)(of_nat k := True))
      = hasUpvoted (crowded (Suc n))"
    using k by (auto simp: crowded_def fun_eq_iff word_unat_eq_iff)
  have log: "events (crowded n) @ [ConfessionUpvoted 1 (of_nat k) 1000] =
      events (crowded (Suc n))"
    by (simp add: crowded_def k_def)
  have recs: "(confessions (crowded n))(1 := (confessions (crowded n) 1)
        \<lparr>encryptedVotes :=
           fhe_add transparent (encryptedVotes (confessions (crowded n) 1))
             (asEuint32 transparent 1),
         voteCount := voteCount (confessions (crowded n) 1) + 1\<rparr>)
      = confessions (crowded (Suc n))"
    by (simp add: crowded_def transparent_def add.commute)
  have rest: "lastSubmissionTime (crowded n) = lastSubmissionTime (crowded (Suc n))"
    "confessionCount (crowded n) = confessionCount (crowded (Suc n))"
    "rateLimitCooldown (crowded n) = rateLimitCooldown (crowded (Suc n))"
    "paused (crowded n) = paused (crowded (Suc n))"
    "owner (crowded n) = owner (crowded (Suc n))"
    "\<not> paused (crowded n)" "exists (confessions (crowded n) 1)"
    by (simp_all add: crowded_def)
  have "upvote transparent (at (of_nat k) 1000) 1 (crowded n) = Inr (crowded (Suc n))"
    using fresh room rest(6,7)
    by (simp add: upvote_def Let_def checked_add_def at_def rel log recs)
      (simp add: crowded_def)
  then show ?thesis by (simp add: crowd_vote_def transact_def k_def del: of_nat_Suc)
qed

lemma crowd_reaches: "n < 2 ^ 32 \<Longrightarrow>
  run transparent (crowd_run n) (constructor transparent deployer) = crowded n"
proof (induction n)
  case 0
  show ?case by (rule crowded_0)
next
  case (Suc n)
  then have "run transparent (crowd_run n) (constructor transparent deployer) = crowded n"
    by simp
  then show ?case
    using crowded_Suc [OF Suc.prems] by (simp add: crowd_run_Suc run_append)
qed

text \<open>
  Claim C10, as stated, fails where the 32-bit public counter is full. After the run in
  which \<open>writer\<close> submits confession 1 and \<open>2\<^sup>3\<^sup>2 - 1\<close> other addresses upvote it, the ledger
  is not paused, the confession exists and its author has not upvoted it, yet the
  author's upvote reverts: the checked increment \<^verbatim>\<open>voteCount++\<close> overflows.
\<close>

theorem author_upvote_on_full_counter:
  "\<not> paused (run transparent (crowd_run 4294967295) (constructor transparent deployer))
   \<and> exists (confessions
        (run transparent (crowd_run 4294967295) (constructor transparent deployer)) 1)
   \<and> author (confessions
        (run transparent (crowd_run 4294967295) (constructor transparent deployer)) 1) = writer
   \<and> \<not> hasUpvoted
        (run transparent (crowd_run 4294967295) (constructor transparent deployer)) 1 writer
   \<and> upvote transparent (at writer 2000) 1
        (run transparent (crowd_run 4294967295) (constructor transparent deployer)) =
       Inl Panic_overflow"
proof -
  have r: "run transparent (crowd_run 4294967295) (constructor transparent deployer) =
      crowded 4294967295"
    by (rule crowd_reaches) simp
  show ?thesis
    unfolding r
    by (simp add: crowded_def upvote_def writer_def at_def checked_add_def Let_def)
qed

text \<open>
  Claim C10, amended. An upvote by the author of a confession succeeds whenever the
  ledger is not paused, the confession exists, the author has not upvoted it and the
  public counter of the record is below \<open>2\<^sup>3\<^sup>2 - 1\<close>. It raises the counter by one and
  records the author in the upvote relation, and it leaves the records exactly as the
  upvote of any other caller who has not upvoted the confession would: there is no
  self-vote restriction.
\<close>

theorem author_upvote:
  assumes "\<not> paused s" and "exists (confessions s cid)"
    and "sender e = author (confessions s cid)"
    and "\<not> hasUpvoted s cid (sender e)"
    and "unat (voteCount (confessions s cid)) < 2 ^ 32 - 1"
  shows "\<exists>s'. upvote F e cid s = Inr s'
    \<and> voteCount (confessions s' cid) = voteCount (confessions s cid) + 1
    \<and> unat (voteCount (confessions s' cid)) = unat (voteCount (confessions s cid)) + 1
    \<and> hasUpvoted s' cid (sender e)
    \<and> (\<forall>e2. \<not> hasUpvoted s cid (sender e2) \<longrightarrow>
          (\<exists>s2. upvote F e2 cid s = Inr s2 \<and> confessions s2 = confessions s'))"
proof -
  have room: "unat (voteCount (confessions s cid)) + 1 < 2 ^ LENGTH(32)"
    using assms(5) by simp
  have "unat (voteCount (confessions s cid) + 1) = unat (voteCount (confessions s cid)) + 1"
    using unat_succ [OF room] by simp
  then show ?thesis
    using assms(1,2,4) room by (simp add: upvote_def Let_def checked_add_def)
qed

theorem author_upvote_witness:
  "\<not> paused listed \<and> exists (confessions listed 1)
   \<and> sender (at alice 310) = author (confessions listed 1)
   \<and> \<not> hasUpvoted listed 1 (sender (at alice 310))
   \<and> unat (voteCount (confessions listed 1)) < 2 ^ 32 - 1
   \<and> (\<exists>s'. upvote transparent (at alice 310) 1 listed = Inr s'
         \<and> voteCount (confessions s' 1) = 1
         \<and> hasUpvoted s' 1 alice
         \<and> (\<exists>s2. upvote transparent (at bob 310) 1 listed = Inr s2
               \<and> confessions s2 = confessions s'))"
proof -
  have h: "\<not> paused listed" "exists (confessions listed 1)"
    "sender (at alice 310) = author (confessions listed 1)"
    "\<not> hasUpvoted listed 1 (sender (at alice 310))"
    "unat (voteCount (confessions listed 1)) < 2 ^ 32 - 1"
    and v: "voteCount (confessions listed 1) = 0" "sender (at alice 310) = alice"
    and b: "\<not> hasUpvoted listed 1 (sender (at bob 310))"
    by (simp_all add: listed_def run_defs)
  from author_upvote [OF h, of transparent] obtain s' where
    s': "upvote transparent (at alice 310) 1 listed = Inr s'"
      "voteCount (confessions s' 1) = voteCount (confessions listed 1) + 1"
      "hasUpvoted s' 1 (sender (at alice 310))"
      "\<forall>e2. \<not> hasUpvoted listed 1 (sender e2) \<longrightarrow>
          (\<exists>s2. upvote transparent e2 1 listed = Inr s2 \<and> confessions s2 = confessions s')"
    by blast
  from s'(4) b have "\<exists>s2. upvote transparent (at bob 310) 1 listed = Inr s2
      \<and> confessions s2 = confessions s'" by blast
  then show ?thesis using h s'(1,2,3) v by auto
qed

end
